theory Spec2Isabelle
  imports Main "HOL-Library.Word"
begin

section \<open>Session-ticket key rotation: the data model\<close>

text \<open>
  A session-ticket key is a Go \<^verbatim>\<open>[32]byte\<close>: a list of 32 bytes. The zero value of the
  type, which \<^verbatim>\<open>var key [32]byte\<close> and \<^verbatim>\<open>make\<close> produce, is 32 zero bytes.
\<close>

type_synonym byte = "8 word"

type_synonym key = "byte list"

definition zero_key :: key where
  "zero_key = replicate 32 0"

text \<open>
  Errors are values of Go's \<^verbatim>\<open>error\<close> interface (\<open>None\<close> is \<^verbatim>\<open>nil\<close>); the two
  sentinels of package \<^verbatim>\<open>io\<close> are named, any other error of a randomness source carries a
  code. Run-time panics are a separate type: a panic is never returned as an \<^verbatim>\<open>error\<close>.
\<close>

datatype error = EOF | ErrUnexpectedEOF | ErrSource nat

datatype panic =
    MakeCapOutOfRange
  | SliceBoundsOutOfRange
  | NoTicketKeys
  | NonPositiveInterval

text \<open>
  An \<^verbatim>\<open>io.Reader\<close> used as a randomness source is modelled by the script of its answers
  to successive full-buffer requests: the entry \<open>(bs, e)\<close> says that the source delivers the
  bytes \<open>bs\<close> and, if more are asked for, fails with \<open>e\<close>. A script that has run out
  is a source at its end.
\<close>

type_synonym reader = "(byte list \<times> error) list"

text \<open>
  The part of \<^verbatim>\<open>tls.Config\<close> the rotator touches: the optional randomness source
  \<^verbatim>\<open>Rand\<close>, the flag \<^verbatim>\<open>SessionTicketsDisabled\<close>, and the ticket keys that
  \<^verbatim>\<open>SetSessionTicketKeys\<close> installs. The field \<open>effects\<close> is a history of the writes this
  package makes to the configuration, oldest first.
\<close>

datatype cfg_effect = SetKeys "key list" | DisabledTickets

record tls_Config =
  Rand :: "reader option"
  SessionTicketsDisabled :: bool
  sessionTicketKeys :: "key list"
  effects :: "cfg_effect list"

text \<open>
  The rotator holds a pointer \<^verbatim>\<open>cfg\<close> to a configuration it shares with its creator. The
  pointee lives in the \<open>world\<close>, next to the process-wide \<^verbatim>\<open>crypto/rand.Reader\<close>; every
  function that follows the pointer takes the world and returns it updated.
\<close>

record world =
  cfg :: tls_Config
  crypto_rand :: reader

text \<open>
  \<^verbatim>\<open>keys [][32]byte\<close> is a slice: a backing array (\<open>keys_array\<close>, allocated once by
  \<^verbatim>\<open>make\<close>, so its length is the capacity) of which the first \<open>keys_len\<close> elements are
  visible. The channel \<^verbatim>\<open>stop\<close> carries no data of its own; its rendezvous is part of the
  run-loop model below.
\<close>

record KeyRotator =
  duration :: int
  keys_array :: "key list"
  keys_len :: nat

definition cap_keys :: "KeyRotator \<Rightarrow> nat" where
  "cap_keys r = length (keys_array r)"

definition keys :: "KeyRotator \<Rightarrow> key list" where
  "keys r = take (keys_len r) (keys_array r)"

section \<open>Library operations the rotator calls\<close>

text \<open>
  \<^verbatim>\<open>io.ReadFull(rd, buf)\<close>: fills \<open>buf\<close> completely and returns \<^verbatim>\<open>(len(buf), nil)\<close>, or
  returns the number of bytes read with an error: \<^verbatim>\<open>io.EOF\<close> if none was read,
  \<^verbatim>\<open>io.ErrUnexpectedEOF\<close> if the source ended after some. The result is the pair
  \<^verbatim>\<open>(n, err)\<close>, the buffer and the reader after the call.
\<close>

definition ReadFull :: "reader \<Rightarrow> byte list \<Rightarrow> (nat \<times> error option) \<times> byte list \<times> reader" where
  "ReadFull rd buf =
     (case rd of
        [] \<Rightarrow> ((0, Some EOF), buf, [])
      | (bs, e) # rest \<Rightarrow>
          if length buf \<le> length bs then ((length buf, None), take (length buf) bs, rest)
          else ((length bs, Some (if bs \<noteq> [] \<and> e = EOF then ErrUnexpectedEOF else e)),
                bs @ drop (length bs) buf, rest))"

text \<open>
  \<^verbatim>\<open>copy(dst, src)\<close> for two slices of one backing array, each given as (offset, length):
  copies \<^verbatim>\<open>min(len(dst), len(src))\<close> elements, reading the source before it writes.
\<close>

definition copy_within :: "'a list \<Rightarrow> nat \<times> nat \<Rightarrow> nat \<times> nat \<Rightarrow> 'a list" where
  "copy_within a dst src =
     (let n = min (snd dst) (snd src)
      in take (fst dst) a @ take n (drop (fst src) a) @ drop (fst dst + n) a)"

text \<open>
  \<^verbatim>\<open>(*tls.Config).SetSessionTicketKeys(keys)\<close> panics on an empty list and otherwise
  installs a copy of the keys.
\<close>

definition SetSessionTicketKeys :: "key list \<Rightarrow> tls_Config \<Rightarrow> panic + tls_Config" where
  "SetSessionTicketKeys ks c =
     (if ks = [] then Inl NoTicketKeys
      else Inr (c\<lparr>sessionTicketKeys := ks, effects := effects c @ [SetKeys ks]\<rparr>))"

text \<open>\<^verbatim>\<open>make([][32]byte, 0, n)\<close>: panics for a negative capacity, else \<open>n\<close> zero keys.\<close>

definition make_keys :: "int \<Rightarrow> panic + key list" where
  "make_keys n = (if n < 0 then Inl MakeCapOutOfRange else Inr (replicate (nat n) zero_key))"

section \<open>The rotator\<close>

text \<open>
  \<^verbatim>\<open>func (r *KeyRotator) read(key []byte) (int, error)\<close>: reads from \<^verbatim>\<open>cfg.Rand\<close> when it
  is set, else from \<^verbatim>\<open>crypto/rand\<close> (whose \<^verbatim>\<open>Read\<close> is \<^verbatim>\<open>io.ReadFull\<close> on its reader).
\<close>

definition read :: "world \<Rightarrow> byte list \<Rightarrow> (nat \<times> error option) \<times> byte list \<times> world" where
  "read w key =
     (case Rand (cfg w) of
        Some rd \<Rightarrow>
          (case ReadFull rd key of
             (res, key', rd') \<Rightarrow> (res, key', w\<lparr>cfg := (cfg w)\<lparr>Rand := Some rd'\<rparr>\<rparr>))
      | None \<Rightarrow>
          (case ReadFull (crypto_rand w) key of
             (res, key', rd') \<Rightarrow> (res, key', w\<lparr>crypto_rand := rd'\<rparr>)))"

text \<open>
  \<^verbatim>\<open>func (r *KeyRotator) rotate() error\<close> (named \<open>rotate_keys\<close> here, since
  \<open>rotate\<close> is a list function of HOL), statement by statement: the slice grows by one
  while below capacity; \<^verbatim>\<open>r.keys[1:]\<close> panics when the slice is empty (capacity 0);
  \<^verbatim>\<open>copy\<close> shifts the elements one place to the tail; the fresh key is read; only a read
  without error stores it at index 0; the slice is published to the configuration; the
  read's error is returned.
\<close>

definition rotate_keys :: "KeyRotator \<Rightarrow> world \<Rightarrow> panic + (error option \<times> KeyRotator \<times> world)" where
  "rotate_keys r w =
     (let key = replicate 32 0;
          n = (if keys_len r < cap_keys r then keys_len r + 1 else keys_len r)
      in if n < 1 then Inl SliceBoundsOutOfRange
         else
           (let arr = copy_within (keys_array r) (1, n - 1) (0, n)
            in case read w key of
                 ((m, err), key', w') \<Rightarrow>
                   (let arr' = (if err = None then arr[0 := key'] else arr);
                        r' = r\<lparr>keys_array := arr', keys_len := n\<rparr>
                    in case SetSessionTicketKeys (keys r') (cfg w') of
                         Inl p \<Rightarrow> Inl p
                       | Inr c \<Rightarrow> Inr (err, r', w'\<lparr>cfg := c\<rparr>))))"

text \<open>
  A caller that invokes \<^verbatim>\<open>rotate()\<close> \<open>k\<close> times in a row and keeps each call's error.
\<close>

fun rotations :: "nat \<Rightarrow> KeyRotator \<Rightarrow> world \<Rightarrow> panic + (error option list \<times> KeyRotator \<times> world)" where
  "rotations 0 r w = Inr ([], r, w)"
| "rotations (Suc k) r w =
     (case rotate_keys r w of
        Inl p \<Rightarrow> Inl p
      | Inr (e, r', w') \<Rightarrow>
          (case rotations k r' w' of
             Inl p \<Rightarrow> Inl p
           | Inr (es, r'', w'') \<Rightarrow> Inr (e # es, r'', w'')))"

text \<open>
  The task supervisor \<^verbatim>\<open>*group.Group\<close> is an external package; all the wrapper does with
  it is \<^verbatim>\<open>g.Add(r)\<close>. It is modelled by the list of the runnables registered so far.
\<close>

type_synonym group = "KeyRotator list"

definition Add :: "group \<Rightarrow> KeyRotator \<Rightarrow> group" where
  "Add g r = g @ [r]"

text \<open>
  \<^verbatim>\<open>WithSessionTicketKeyRotation(g, n, d)\<close> applied to a configuration: builds the rotator
  with an empty slice of capacity \<open>n\<close>, rotates once; on an error sets
  \<^verbatim>\<open>cfg.SessionTicketsDisabled\<close> and returns \<^verbatim>\<open>nil\<close> without registering; otherwise
  registers the rotator and returns \<^verbatim>\<open>nil\<close>.
\<close>

definition WithSessionTicketKeyRotation ::
    "group \<Rightarrow> int \<Rightarrow> int \<Rightarrow> world \<Rightarrow> panic + (error option \<times> group \<times> world)" where
  "WithSessionTicketKeyRotation g n d w =
     (case make_keys n of
        Inl p \<Rightarrow> Inl p
      | Inr arr \<Rightarrow>
          (let r = \<lparr>duration = d, keys_array = arr, keys_len = 0\<rparr>
           in case rotate_keys r w of
                Inl p \<Rightarrow> Inl p
              | Inr (err, r', w') \<Rightarrow>
                  if err \<noteq> None
                  then Inr (None, g,
                         w'\<lparr>cfg := (cfg w')\<lparr>SessionTicketsDisabled := True,
                                             effects := effects (cfg w') @ [DisabledTickets]\<rparr>\<rparr>)
                  else Inr (None, Add g r', w')))"

section \<open>The run loop and the stop handshake\<close>

text \<open>
  \<^verbatim>\<open>Start\<close> and \<^verbatim>\<open>Stop\<close> run on two goroutines that meet on the unbuffered channel
  \<^verbatim>\<open>r.stop\<close> and on the acknowledgment channel \<^verbatim>\<open>q\<close> that \<^verbatim>\<open>Stop\<close> makes. Each goroutine is
  modelled by its program counter.

  The goroutine of \<^verbatim>\<open>Start\<close>: not yet called; blocked in the \<^verbatim>\<open>select\<close>; past the receive
  \<^verbatim>\<open>q := <-r.stop\<close> and about to \<^verbatim>\<open>close(q)\<close>; past \<^verbatim>\<open>close(q)\<close> and about to
  \<^verbatim>\<open>return nil\<close> (which runs the deferred \<^verbatim>\<open>timer.Stop()\<close>); returned; or ended by a panic.
\<close>

datatype loop_pc = NotStarted | Selecting | Acknowledging | Returning | Exited | Crashed panic

text \<open>
  The goroutine of \<^verbatim>\<open>Stop(err)\<close>: not yet called; blocked in the send \<^verbatim>\<open>r.stop <- q\<close>;
  blocked in the receive \<^verbatim>\<open><-q\<close>; returned. The argument \<^verbatim>\<open>err\<close> stays in the frame
  as long as the call runs. There is one call of \<^verbatim>\<open>Stop\<close>, as the supervisor makes one.
\<close>

datatype stop_pc = NotCalled | Sending "error option" | AwaitingAck "error option" | StopReturned

record system =
  rotator :: KeyRotator
  env :: world
  loop :: loop_pc
  stopper :: stop_pc
  ack_closed :: bool
  ticker_on :: bool

text \<open>
  The atomic actions of the system. \<open>CallStart\<close>: \<^verbatim>\<open>Start\<close> is called and runs
  \<^verbatim>\<open>time.NewTicker(r.duration)\<close>. \<open>Tick\<close>: the \<^verbatim>\<open>select\<close> takes \<^verbatim>\<open><-timer.C\<close>.
  \<open>CallStop e\<close>: \<^verbatim>\<open>Stop(e)\<close> is called, makes \<^verbatim>\<open>q\<close> and starts to send it. \<open>Handover\<close>: the
  send \<^verbatim>\<open>r.stop <- q\<close> and the receive \<^verbatim>\<open>q := <-r.stop\<close> complete together, the channel
  being unbuffered. \<open>CloseAck\<close>: \<^verbatim>\<open>close(q)\<close>. \<open>ReturnNil\<close>: \<^verbatim>\<open>return nil\<close>. \<open>SeeAck\<close>: the
  receive \<^verbatim>\<open><-q\<close> completes. Time is abstracted: the ticker may fire whenever the loop
  waits.
\<close>

datatype action = CallStart | Tick | CallStop "error option" | Handover | CloseAck | ReturnNil | SeeAck

text \<open>
  \<^verbatim>\<open>func (r *KeyRotator) Start() error\<close>, as what its goroutine does on each action, \<open>None\<close>
  when the goroutine is not at the place for it: \<^verbatim>\<open>time.NewTicker\<close> panics unless the
  duration is positive; a tick calls \<^verbatim>\<open>r.rotate()\<close> and drops the result, going round the
  loop (a panic of \<^verbatim>\<open>rotate\<close> ends the goroutine, the deferred \<^verbatim>\<open>timer.Stop()\<close> running on
  the way); the receive of a stop request leads to \<^verbatim>\<open>close(q)\<close> and then to
  \<^verbatim>\<open>return nil\<close>, which runs the deferred \<^verbatim>\<open>timer.Stop()\<close>. The actions of \<^verbatim>\<open>Stop\<close> alone
  leave it where it is.
\<close>

fun Start :: "action \<Rightarrow> system \<Rightarrow> system option" where
  "Start CallStart s =
     (if loop s = NotStarted
      then Some (if duration (rotator s) \<le> 0 then s\<lparr>loop := Crashed NonPositiveInterval\<rparr>
                 else s\<lparr>loop := Selecting, ticker_on := True\<rparr>)
      else None)"
| "Start Tick s =
     (if loop s = Selecting
      then Some (case rotate_keys (rotator s) (env s) of
                   Inl p \<Rightarrow> s\<lparr>loop := Crashed p, ticker_on := False\<rparr>
                 | Inr (err, r', w') \<Rightarrow> s\<lparr>rotator := r', env := w'\<rparr>)
      else None)"
| "Start Handover s =
     (if loop s = Selecting then Some (s\<lparr>loop := Acknowledging\<rparr>) else None)"
| "Start CloseAck s =
     (if loop s = Acknowledging then Some (s\<lparr>ack_closed := True, loop := Returning\<rparr>) else None)"
| "Start ReturnNil s =
     (if loop s = Returning then Some (s\<lparr>loop := Exited, ticker_on := False\<rparr>) else None)"
| "Start (CallStop e) s = Some s"
| "Start SeeAck s = Some s"

text \<open>
  \<^verbatim>\<open>func (r *KeyRotator) Stop(err error)\<close>, in the same way: the call makes \<^verbatim>\<open>q\<close> and
  blocks in the send; the send completes in a handover; the receive \<^verbatim>\<open><-q\<close> completes
  once \<^verbatim>\<open>q\<close> is closed, and \<^verbatim>\<open>Stop\<close> returns. The argument \<^verbatim>\<open>err\<close> is never read.
\<close>

fun Stop :: "action \<Rightarrow> system \<Rightarrow> system option" where
  "Stop (CallStop e) s =
     (if stopper s = NotCalled then Some (s\<lparr>stopper := Sending e\<rparr>) else None)"
| "Stop Handover s =
     (case stopper s of
        Sending e \<Rightarrow> Some (s\<lparr>stopper := AwaitingAck e\<rparr>)
      | _ \<Rightarrow> None)"
| "Stop SeeAck s =
     (case stopper s of
        AwaitingAck e \<Rightarrow> if ack_closed s then Some (s\<lparr>stopper := StopReturned\<rparr>) else None
      | _ \<Rightarrow> None)"
| "Stop CallStart s = Some s"
| "Stop Tick s = Some s"
| "Stop CloseAck s = Some s"
| "Stop ReturnNil s = Some s"

text \<open>
  \<open>step a s\<close> is the state after action \<open>a\<close>, or \<open>None\<close> when \<open>a\<close> is not enabled in \<open>s\<close>:
  both goroutines must be at the place for it, which for a handover means that the loop
  is in its \<^verbatim>\<open>select\<close> while \<^verbatim>\<open>Stop\<close> is sending.
\<close>

definition step :: "action \<Rightarrow> system \<Rightarrow> system option" where
  "step a s = (case Start a s of None \<Rightarrow> None | Some s' \<Rightarrow> Stop a s')"

text \<open>A schedule is a list of actions; it runs as far as every action is enabled.\<close>

fun run :: "action list \<Rightarrow> system \<Rightarrow> system option" where
  "run [] s = Some s"
| "run (a # as) s = (case step a s of None \<Rightarrow> None | Some s' \<Rightarrow> run as s')"

text \<open>The system right after \<^verbatim>\<open>g.Add(r)\<close>: neither \<^verbatim>\<open>Start\<close> nor \<^verbatim>\<open>Stop\<close> has been called.\<close>

definition registered :: "KeyRotator \<Rightarrow> world \<Rightarrow> system" where
  "registered r w =
     \<lparr>rotator = r, env = w, loop = NotStarted, stopper = NotCalled, ack_closed = False,
      ticker_on = False\<rparr>"

section \<open>Observers used in the statements\<close>

text \<open>
  \<open>source w\<close> is the reader that \<^verbatim>\<open>read\<close> consults in world \<open>w\<close>; \<open>next_key w\<close> is the
  key the next 32-byte read yields, or \<open>None\<close> when that read fails (source at its end,
  read error or short read); \<open>consumed w\<close> is the world after one read, \<open>published ks w\<close>
  the world after \<open>ks\<close> has been installed as ticket keys. \<open>slice_ok\<close> is the invariant
  of every Go slice: its length does not exceed its capacity.
\<close>

definition source :: "world \<Rightarrow> reader" where
  "source w = (case Rand (cfg w) of Some rd \<Rightarrow> rd | None \<Rightarrow> crypto_rand w)"

definition next_key :: "world \<Rightarrow> key option" where
  "next_key w =
     (case source w of
        [] \<Rightarrow> None
      | (bs, e) # rest \<Rightarrow> if 32 \<le> length bs then Some (take 32 bs) else None)"

definition consumed :: "world \<Rightarrow> world" where
  "consumed w =
     (case Rand (cfg w) of
        Some rd \<Rightarrow> w\<lparr>cfg := (cfg w)\<lparr>Rand := Some (tl rd)\<rparr>\<rparr>
      | None \<Rightarrow> w\<lparr>crypto_rand := tl (crypto_rand w)\<rparr>)"

definition slice_ok :: "KeyRotator \<Rightarrow> bool" where
  "slice_ok r = (keys_len r \<le> cap_keys r)"

definition published :: "key list \<Rightarrow> world \<Rightarrow> world" where
  "published ks w = w\<lparr>cfg := (cfg w)\<lparr>sessionTicketKeys := ks, effects := effects (cfg w) @ [SetKeys ks]\<rparr>\<rparr>"

text \<open>
  \<open>yields rd ks\<close>: the next reads from \<open>rd\<close> succeed and produce the keys \<open>ks\<close>, in this
  order. \<open>starved rd m\<close>: the next \<open>m\<close> reads from \<open>rd\<close> fail.
\<close>

fun yields :: "reader \<Rightarrow> key list \<Rightarrow> bool" where
  "yields rd [] = True"
| "yields [] (k # ks) = False"
| "yields ((bs, e) # rd) (k # ks) = (32 \<le> length bs \<and> take 32 bs = k \<and> yields rd ks)"

fun starved :: "reader \<Rightarrow> nat \<Rightarrow> bool" where
  "starved rd 0 = True"
| "starved [] (Suc m) = True"
| "starved ((bs, e) # rd) (Suc m) = (length bs < 32 \<and> starved rd m)"

text \<open>
  \<open>requested p\<close>: the call of \<^verbatim>\<open>Stop\<close> has handed its request to the loop. \<open>coherent\<close>
  relates the two program counters and the acknowledgment channel.
\<close>

fun requested :: "stop_pc \<Rightarrow> bool" where
  "requested (AwaitingAck e) = True"
| "requested StopReturned = True"
| "requested p = False"

fun awaiting :: "stop_pc \<Rightarrow> bool" where
  "awaiting (AwaitingAck e) = True"
| "awaiting p = False"

definition coherent :: "system \<Rightarrow> bool" where
  "coherent s =
     (if loop s = Acknowledging then \<not> ack_closed s \<and> awaiting (stopper s)
      else if loop s = Returning \<or> loop s = Exited then ack_closed s \<and> requested (stopper s)
      else \<not> ack_closed s \<and> \<not> requested (stopper s))"

text \<open>
  Two invariants of the run loop: the rotator keeps a well-formed slice of positive
  capacity, and it keeps its interval \<open>d\<close>, the only panic being the one of
  \<^verbatim>\<open>time.NewTicker\<close> for an interval that is not positive.
\<close>

definition ring_ok :: "system \<Rightarrow> bool" where
  "ring_ok s = (slice_ok (rotator s) \<and> 0 < cap_keys (rotator s))"

definition crash_free :: "int \<Rightarrow> system \<Rightarrow> bool" where
  "crash_free d s =
     (duration (rotator s) = d \<and>
      (case loop s of Crashed p \<Rightarrow> p = NonPositiveInterval \<and> d \<le> 0 | _ \<Rightarrow> True))"

text \<open>
  \<open>with_arg e\<close> replaces the argument of a call of \<^verbatim>\<open>Stop\<close> in a schedule, and \<open>forget\<close>
  erases it from the frame of a running call.
\<close>

fun with_arg :: "error option \<Rightarrow> action \<Rightarrow> action" where
  "with_arg e (CallStop _) = CallStop e"
| "with_arg e a = a"

fun erase :: "stop_pc \<Rightarrow> stop_pc" where
  "erase (Sending e) = Sending None"
| "erase (AwaitingAck e) = AwaitingAck None"
| "erase p = p"

definition forget :: "system \<Rightarrow> system" where
  "forget s =
     \<lparr>rotator = rotator s, env = env s, loop = loop s, stopper = erase (stopper s),
      ack_closed = ack_closed s, ticker_on = ticker_on s\<rparr>"

section \<open>Example inputs\<close>

text \<open>
  Concrete inputs for the examples: distinguishable keys, a world whose configuration
  carries the given randomness source, and a rotator over a given backing array.
\<close>

definition demo_key :: "nat \<Rightarrow> key" where
  "demo_key i = replicate 32 (of_nat i)"

definition demo_world :: "reader \<Rightarrow> world" where
  "demo_world rd =
     \<lparr>cfg = \<lparr>Rand = Some rd, SessionTicketsDisabled = False, sessionTicketKeys = [],
             effects = []\<rparr>,
      crypto_rand = []\<rparr>"

definition demo_rotator :: "key list \<Rightarrow> nat \<Rightarrow> KeyRotator" where
  "demo_rotator arr n = \<lparr>duration = 3600, keys_array = arr, keys_len = n\<rparr>"

section \<open>One call of rotate\<close>

lemma cap_keys_update [simp]: "cap_keys (r\<lparr>keys_array := a, keys_len := n\<rparr>) = length a"
  by (simp add: cap_keys_def)

lemma consumed_simps [simp]:
  "source (consumed w) = tl (source w)"
  "SessionTicketsDisabled (cfg (consumed w)) = SessionTicketsDisabled (cfg w)"
  "sessionTicketKeys (cfg (consumed w)) = sessionTicketKeys (cfg w)"
  "effects (cfg (consumed w)) = effects (cfg w)"
  by (simp_all add: consumed_def source_def split: option.splits)

lemma read_success:
  assumes "next_key w = Some k"
  shows "read w (replicate 32 0) = ((32, None), k, consumed w)"
proof (cases "Rand (cfg w)")
  case None
  with assms show ?thesis
    by (auto simp: next_key_def source_def read_def ReadFull_def consumed_def
             split: list.splits if_splits)
next
  case (Some rd)
  with assms show ?thesis
    by (auto simp: next_key_def source_def read_def ReadFull_def consumed_def
             split: list.splits if_splits)
qed

lemma read_failure:
  assumes "next_key w = None"
  shows "\<exists>m e key'. read w (replicate 32 0) = ((m, Some e), key', consumed w)"
proof (cases "Rand (cfg w)")
  case None
  with assms show ?thesis
    by (auto simp: next_key_def source_def read_def ReadFull_def consumed_def
             split: list.splits if_splits)
next
  case (Some rd)
  with assms show ?thesis
    by (auto simp: next_key_def source_def read_def ReadFull_def consumed_def
             split: list.splits if_splits)
qed

lemma published_simps [simp]:
  "source (published ks w) = source w"
  "SessionTicketsDisabled (cfg (published ks w)) = SessionTicketsDisabled (cfg w)"
  "sessionTicketKeys (cfg (published ks w)) = ks"
  "effects (cfg (published ks w)) = effects (cfg w) @ [SetKeys ks]"
  by (simp_all add: published_def source_def split: option.splits)

lemma shifted_prefix:
  assumes "0 < n" "n \<le> length a"
  shows "take n (copy_within a (1, n - 1) (0, n)) = take 1 a @ take (n - 1) a"
    and "length (copy_within a (1, n - 1) (0, n)) = length a"
proof -
  have "length (take 1 a @ take (n - 1) a) = n"
    using assms by (cases a) auto
  then have "take n ((take 1 a @ take (n - 1) a) @ drop n a) = take 1 a @ take (n - 1) a"
    by (metis append_eq_conv_conj)
  then show "take n (copy_within a (1, n - 1) (0, n)) = take 1 a @ take (n - 1) a"
    using assms by (simp add: copy_within_def)
  show "length (copy_within a (1, n - 1) (0, n)) = length a"
    using assms by (auto simp: copy_within_def)
qed

lemma rotate_success:
  assumes "slice_ok r" "0 < cap_keys r" "next_key w = Some k"
  shows "\<exists>r'. rotate_keys r w = Inr (None, r', published (keys r') (consumed w))
           \<and> keys r' = k # take (cap_keys r - 1) (keys r)
           \<and> cap_keys r' = cap_keys r \<and> slice_ok r' \<and> duration r' = duration r"
proof -
  define n where "n = (if keys_len r < cap_keys r then keys_len r + 1 else keys_len r)"
  define arr where "arr = copy_within (keys_array r) (1, n - 1) (0, n)"
  define r' where "r' = r\<lparr>keys_array := arr[0 := k], keys_len := n\<rparr>"
  have n: "0 < n" "n \<le> length (keys_array r)"
    using assms(1,2) by (auto simp: n_def slice_ok_def cap_keys_def)
  have len: "length arr = length (keys_array r)"
    unfolding arr_def using shifted_prefix(2) [OF n] .
  have "take n (arr[0 := k]) = (take n arr)[0 := k]"
    by (simp add: take_update_swap)
  also have "\<dots> = k # take (n - 1) (keys_array r)"
    unfolding arr_def shifted_prefix(1) [OF n] using n
    by (cases "keys_array r") auto
  finally have ks: "keys r' = k # take (n - 1) (keys_array r)"
    by (simp add: r'_def keys_def)
  have "n - 1 = min (cap_keys r - 1) (keys_len r)"
    using assms(1,2) by (auto simp: n_def slice_ok_def)
  then have "take (n - 1) (keys_array r) = take (cap_keys r - 1) (keys r)"
    by (simp add: keys_def)
  with ks have ks': "keys r' = k # take (cap_keys r - 1) (keys r)" by simp
  have "rotate_keys r w = Inr (None, r', published (keys r') (consumed w))"
    using n ks'
    by (simp add: rotate_keys_def Let_def read_success [OF assms(3)] n_def [symmetric]
        arr_def [symmetric] r'_def [symmetric] SetSessionTicketKeys_def published_def
        del: One_nat_def)
  moreover have "cap_keys r' = cap_keys r" "slice_ok r'" "duration r' = duration r"
    using n len by (simp_all add: r'_def cap_keys_def slice_ok_def)
  ultimately show ?thesis using ks' by blast
qed

lemma rotate_failure:
  assumes "slice_ok r" "0 < cap_keys r" "next_key w = None"
  shows "\<exists>e r'. rotate_keys r w = Inr (Some e, r', published (keys r') (consumed w))
           \<and> keys r' = take (cap_keys r) (take 1 (keys_array r) @ keys r)
           \<and> cap_keys r' = cap_keys r \<and> slice_ok r' \<and> duration r' = duration r"
proof -
  define n where "n = (if keys_len r < cap_keys r then keys_len r + 1 else keys_len r)"
  define arr where "arr = copy_within (keys_array r) (1, n - 1) (0, n)"
  define r' where "r' = r\<lparr>keys_array := arr, keys_len := n\<rparr>"
  obtain m e key' where rd: "read w (replicate 32 0) = ((m, Some e), key', consumed w)"
    using read_failure [OF assms(3)] by blast
  have n: "0 < n" "n \<le> length (keys_array r)"
    using assms(1,2) by (auto simp: n_def slice_ok_def cap_keys_def)
  have len: "length arr = length (keys_array r)"
    unfolding arr_def using shifted_prefix(2) [OF n] .
  have ks: "keys r' = take 1 (keys_array r) @ take (n - 1) (keys_array r)"
    unfolding r'_def keys_def arr_def using shifted_prefix(1) [OF n] by simp
  have "n - 1 = min (cap_keys r - 1) (keys_len r)"
    using assms(1,2) by (auto simp: n_def slice_ok_def)
  moreover have "length (take 1 (keys_array r)) = 1" "min (cap_keys r) 1 = 1"
    using assms(2) by (cases "keys_array r"; simp add: cap_keys_def)+
  ultimately have "take 1 (keys_array r) @ take (n - 1) (keys_array r)
        = take (cap_keys r) (take 1 (keys_array r) @ keys r)"
    by (simp add: keys_def)
  with ks have ks': "keys r' = take (cap_keys r) (take 1 (keys_array r) @ keys r)" by simp
  have ne: "keys r' \<noteq> []"
    using ks n by (cases "keys_array r") auto
  have "rotate_keys r w = Inr (Some e, r', published (keys r') (consumed w))"
    using n ne
    by (simp add: rotate_keys_def Let_def rd n_def [symmetric]
        arr_def [symmetric] r'_def [symmetric] SetSessionTicketKeys_def published_def
        del: One_nat_def)
  moreover have "cap_keys r' = cap_keys r" "slice_ok r'" "duration r' = duration r"
    using n len by (simp_all add: r'_def cap_keys_def slice_ok_def)
  ultimately show ?thesis using ks' by blast
qed

lemma rotate_total:
  assumes "slice_ok r" "0 < cap_keys r"
  shows "\<exists>e r' w'. rotate_keys r w = Inr (e, r', w')
           \<and> slice_ok r' \<and> cap_keys r' = cap_keys r \<and> keys r' \<noteq> []
           \<and> duration r' = duration r"
proof (cases "next_key w")
  case None
  from rotate_failure [OF assms None] obtain e r'
    where "rotate_keys r w = Inr (Some e, r', published (keys r') (consumed w))"
      "keys r' = take (cap_keys r) (take 1 (keys_array r) @ keys r)"
      "cap_keys r' = cap_keys r" "slice_ok r'" "duration r' = duration r"
    by blast
  moreover from this(2) assms(2) have "keys r' \<noteq> []"
    by (cases "keys_array r") (auto simp: cap_keys_def)
  ultimately show ?thesis by blast
next
  case (Some k)
  from rotate_success [OF assms Some] show ?thesis by fastforce
qed

lemma rotate_returns:
  assumes "slice_ok r" "rotate_keys r w = Inr (e, r', w')"
  shows "0 < cap_keys r"
  using assms
  by (cases "cap_keys r = 0") (auto simp: rotate_keys_def Let_def slice_ok_def)

lemma rotate_keeps_invariant:
  assumes "slice_ok r" "rotate_keys r w = Inr (e, r', w')"
  shows "slice_ok r' \<and> cap_keys r' = cap_keys r"
  using rotate_total [OF assms(1) rotate_returns [OF assms], of w] assms(2) by auto

section \<open>Several calls of rotate\<close>

lemma yields_next:
  assumes "yields (source w) (k # ks)"
  shows "next_key w = Some k" and "yields (tl (source w)) ks"
  using assms by (cases "source w"; auto simp: next_key_def)+

lemma yields_append:
  assumes "yields rd (ks @ [k])"
  shows "yields rd ks" and "yields (drop (length ks) rd) [k]"
  using assms
  by (induction rd ks rule: yields.induct) auto

lemma starved_next:
  assumes "starved (source w) (Suc m)"
  shows "next_key w = None" and "starved (tl (source w)) m"
  using assms by (cases "source w"; cases m; auto simp: next_key_def)+

lemma rotations_length:
  assumes "rotations k r w = Inr (es, r', w')"
  shows "length es = k"
  using assms
  by (induction k arbitrary: r w es) (auto split: sum.splits)

lemma rotations_keep_invariant:
  assumes "slice_ok r" "rotations k r w = Inr (es, r', w')"
  shows "slice_ok r' \<and> cap_keys r' = cap_keys r"
  using assms
proof (induction k arbitrary: r w es)
  case 0
  then show ?case by simp
next
  case (Suc k)
  from Suc.prems(2) obtain e r1 w1 es1
    where 1: "rotate_keys r w = Inr (e, r1, w1)" and 2: "rotations k r1 w1 = Inr (es1, r', w')"
    by (auto split: sum.splits)
  from rotate_keeps_invariant [OF Suc.prems(1) 1] Suc.IH [OF _ 2] show ?case by simp
qed

lemma rotations_total:
  assumes "slice_ok r" "0 < cap_keys r"
  shows "\<exists>es r' w'. rotations k r w = Inr (es, r', w')"
  using assms
proof (induction k arbitrary: r w)
  case 0
  then show ?case by simp
next
  case (Suc k)
  from rotate_total [OF Suc.prems, of w] obtain e r1 w1
    where 1: "rotate_keys r w = Inr (e, r1, w1)" "slice_ok r1" "cap_keys r1 = cap_keys r"
    by blast
  with Suc.IH [of r1 w1] Suc.prems(2) show ?case by auto
qed

lemma take_shifted:
  assumes "0 < c"
  shows "take c (xs @ k # take (c - 1) ys) = take c (xs @ k # ys)"
  using assms by (auto simp: take_Cons' min_def)

lemma rotations_all_success:
  assumes "slice_ok r" "0 < cap_keys r" "yields (source w) ks"
  shows "\<exists>r' w'. rotations (length ks) r w = Inr (replicate (length ks) None, r', w')
           \<and> keys r' = take (cap_keys r) (rev ks @ keys r)
           \<and> slice_ok r' \<and> cap_keys r' = cap_keys r
           \<and> source w' = drop (length ks) (source w)"
  using assms
proof (induction ks arbitrary: r w)
  case Nil
  then show ?case by (simp add: keys_def slice_ok_def cap_keys_def)
next
  case (Cons k ks)
  note nk = yields_next [OF Cons.prems(3)]
  from rotate_success [OF Cons.prems(1,2) nk(1)] obtain r1
    where 1: "rotate_keys r w = Inr (None, r1, published (keys r1) (consumed w))"
      "keys r1 = k # take (cap_keys r - 1) (keys r)"
      "cap_keys r1 = cap_keys r" "slice_ok r1"
    by blast
  have "yields (source (published (keys r1) (consumed w))) ks"
    using nk(2) by simp
  from Cons.IH [OF 1(4) _ this] 1(3) Cons.prems(2) obtain r' w'
    where 2: "rotations (length ks) r1 (published (keys r1) (consumed w))
                = Inr (replicate (length ks) None, r', w')"
      "keys r' = take (cap_keys r) (rev ks @ keys r1)"
      "slice_ok r'" "cap_keys r' = cap_keys r"
      "source w' = drop (length ks) (tl (source w))"
    by auto
  have "keys r' = take (cap_keys r) (rev (k # ks) @ keys r)"
    using 2(2) 1(2) take_shifted [OF Cons.prems(2)] by simp
  with 1(1) 2 show ?case by (simp add: drop_Suc)
qed

lemma rotations_all_failure:
  assumes "slice_ok r" "keys r \<noteq> []" "starved (source w) m"
  shows "\<exists>es r' w'. rotations m r w = Inr (es, r', w')
           \<and> length es = m \<and> None \<notin> set es
           \<and> keys r' \<noteq> [] \<and> hd (keys r') = hd (keys r)
           \<and> slice_ok r' \<and> cap_keys r' = cap_keys r"
  using assms
proof (induction m arbitrary: r w)
  case 0
  then show ?case by simp
next
  case (Suc m)
  note nk = starved_next [OF Suc.prems(3)]
  have c: "0 < cap_keys r" and h: "take 1 (keys_array r) = [hd (keys r)]"
    using Suc.prems(1,2) by (cases "keys_array r"; auto simp: slice_ok_def keys_def cap_keys_def)+
  from rotate_failure [OF Suc.prems(1) c nk(1)] obtain e r1
    where 1: "rotate_keys r w = Inr (Some e, r1, published (keys r1) (consumed w))"
      "keys r1 = take (cap_keys r) (take 1 (keys_array r) @ keys r)"
      "cap_keys r1 = cap_keys r" "slice_ok r1"
    by blast
  have "keys r1 = take (cap_keys r) (hd (keys r) # keys r)"
    using 1(2) unfolding h by simp
  then have k1: "keys r1 \<noteq> []" "hd (keys r1) = hd (keys r)"
    using c by (simp_all add: take_Cons')
  have "starved (source (published (keys r1) (consumed w))) m"
    using nk(2) by simp
  from Suc.IH [OF 1(4) k1(1) this] obtain es r' w'
    where 2: "rotations m r1 (published (keys r1) (consumed w)) = Inr (es, r', w')"
      "length es = m" "None \<notin> set es" "keys r' \<noteq> []" "hd (keys r') = hd (keys r1)"
      "slice_ok r'" "cap_keys r' = cap_keys r1"
    by blast
  with 1(1,3) k1(2) show ?case by simp
qed

section \<open>Rotation order\<close>

text \<open>
  Claim C2. After any run of successful rotations that generated the keys \<open>ks\<close> (oldest
  first), one more successful rotation generating \<open>k\<close> leaves \<open>k\<close> at index 0 and, behind
  it, the previous ring truncated to capacity minus one; the ring is the newest keys,
  newest first, cut at the capacity. With capacity 3 the rings are \<open>[k3, k2, k1]\<close> after
  three rotations and \<open>[k4, k3, k2]\<close> after the fourth.
\<close>

theorem successful_rotations_newest_first:
  assumes "slice_ok r" and "0 < cap_keys r" and "yields (source w) (ks @ [k])"
  shows "\<exists>r1 w1 r2 w2.
           rotations (length ks) r w = Inr (replicate (length ks) None, r1, w1)
         \<and> rotate_keys r1 w1 = Inr (None, r2, w2)
         \<and> keys r2 ! 0 = k
         \<and> drop 1 (keys r2) = take (cap_keys r - 1) (keys r1)
         \<and> keys r1 = take (cap_keys r) (rev ks @ keys r)
         \<and> keys r2 = take (cap_keys r) (k # rev ks @ keys r)
         \<and> length (keys r2) \<le> cap_keys r"
proof -
  note y = yields_append [OF assms(3)]
  from rotations_all_success [OF assms(1,2) y(1)] obtain r1 w1
    where 1: "rotations (length ks) r w = Inr (replicate (length ks) None, r1, w1)"
      "keys r1 = take (cap_keys r) (rev ks @ keys r)"
      "slice_ok r1" "cap_keys r1 = cap_keys r"
      "source w1 = drop (length ks) (source w)"
    by blast
  have "yields (source w1) (k # [])"
    using y(2) 1(5) by simp
  then have "next_key w1 = Some k"
    by (rule yields_next(1))
  from rotate_success [OF 1(3) _ this] assms(2) 1(4) obtain r2
    where 2: "rotate_keys r1 w1 = Inr (None, r2, published (keys r2) (consumed w1))"
      "keys r2 = k # take (cap_keys r - 1) (keys r1)"
    by auto
  have 3: "keys r2 = take (cap_keys r) (k # rev ks @ keys r)"
    using 2(2) 1(2) assms(2) by (simp add: take_Cons' min_def)
  then have 4: "length (keys r2) \<le> cap_keys r"
    by simp
  have 5: "keys r2 ! 0 = k" "drop 1 (keys r2) = take (cap_keys r - 1) (keys r1)"
    using 2(2) by simp_all
  from 1(1,2) 2(1) 3 4 5 show ?thesis by blast
qed

theorem successful_rotations_newest_first_witness:
  "slice_ok (demo_rotator [zero_key, zero_key, zero_key] 0)
   \<and> 0 < cap_keys (demo_rotator [zero_key, zero_key, zero_key] 0)
   \<and> yields (source (demo_world [(demo_key 1, EOF), (demo_key 2, EOF), (demo_key 3, EOF),
                                   (demo_key 4, EOF)]))
        ([demo_key 1, demo_key 2, demo_key 3] @ [demo_key 4])
   \<and> (\<exists>r1 w1 r2 w2.
         rotations 3 (demo_rotator [zero_key, zero_key, zero_key] 0)
           (demo_world [(demo_key 1, EOF), (demo_key 2, EOF), (demo_key 3, EOF),
                        (demo_key 4, EOF)])
           = Inr ([None, None, None], r1, w1)
       \<and> rotate_keys r1 w1 = Inr (None, r2, w2)
       \<and> drop 1 (keys r2) = take 2 (keys r1)
       \<and> keys r1 = [demo_key 3, demo_key 2, demo_key 1]
       \<and> keys r2 = [demo_key 4, demo_key 3, demo_key 2])"
proof -
  have h1: "slice_ok (demo_rotator [zero_key, zero_key, zero_key] 0)"
    and h2: "0 < cap_keys (demo_rotator [zero_key, zero_key, zero_key] 0)"
    by (simp_all add: slice_ok_def cap_keys_def demo_rotator_def)
  have h3: "yields (source (demo_world [(demo_key 1, EOF), (demo_key 2, EOF),
                                        (demo_key 3, EOF), (demo_key 4, EOF)]))
              ([demo_key 1, demo_key 2, demo_key 3] @ [demo_key 4])"
    by (simp add: source_def demo_world_def demo_key_def)
  have c: "cap_keys (demo_rotator [zero_key, zero_key, zero_key] 0) = 3"
    and k: "keys (demo_rotator [zero_key, zero_key, zero_key] 0) = []"
    by (simp_all add: cap_keys_def keys_def demo_rotator_def)
  have l: "length [demo_key 1, demo_key 2, demo_key 3] = 3"
    and n: "replicate 3 (None :: error option) = [None, None, None]"
    and t: "take 3 (demo_key 4 # rev [demo_key 1, demo_key 2, demo_key 3] @ [])
              = [demo_key 4, demo_key 3, demo_key 2]"
    and t': "take 3 (rev [demo_key 1, demo_key 2, demo_key 3] @ [])
              = [demo_key 3, demo_key 2, demo_key 1]"
    and m: "(3::nat) - 1 = 2"
    by (simp_all add: numeral_3_eq_3)
  from successful_rotations_newest_first [OF h1 h2 h3]
  have "\<exists>r1 w1 r2 w2.
         rotations 3 (demo_rotator [zero_key, zero_key, zero_key] 0)
           (demo_world [(demo_key 1, EOF), (demo_key 2, EOF), (demo_key 3, EOF),
                        (demo_key 4, EOF)])
           = Inr ([None, None, None], r1, w1)
       \<and> rotate_keys r1 w1 = Inr (None, r2, w2)
       \<and> drop 1 (keys r2) = take 2 (keys r1)
       \<and> keys r1 = [demo_key 3, demo_key 2, demo_key 1]
       \<and> keys r2 = [demo_key 4, demo_key 3, demo_key 2]"
    unfolding c k l n t t' m by blast
  with h1 h2 h3 show ?thesis by blast
qed

section \<open>The ring never outgrows its capacity\<close>

text \<open>
  Claim C3. For a rotator built with capacity \<open>n\<close> (the slice \<^verbatim>\<open>make([][32]byte, 0, n)\<close>),
  any number \<open>k\<close> of \<^verbatim>\<open>rotate()\<close> calls, under any randomness source (so each call may
  succeed or fail), ends with \<open>length keys \<le> n\<close>; a positive capacity makes every call
  return. Since \<open>k\<close> is arbitrary, the bound holds before and after every call.
\<close>

theorem ring_length_bounded:
  assumes "make_keys n = Inr arr"
  shows "(0 < n \<longrightarrow>
            (\<exists>es r' w'. rotations k \<lparr>duration = d, keys_array = arr, keys_len = 0\<rparr> w
                           = Inr (es, r', w')))
       \<and> (\<forall>es r' w'. rotations k \<lparr>duration = d, keys_array = arr, keys_len = 0\<rparr> w
                           = Inr (es, r', w')
            \<longrightarrow> length es = k \<and> length (keys r') \<le> nat n \<and> cap_keys r' = nat n)"
proof -
  let ?r = "\<lparr>duration = d, keys_array = arr, keys_len = 0\<rparr>"
  from assms have arr: "arr = replicate (nat n) zero_key"
    by (simp add: make_keys_def split: if_splits)
  then have ok: "slice_ok ?r" and c: "cap_keys ?r = nat n"
    by (simp_all add: slice_ok_def cap_keys_def)
  have "\<exists>es r' w'. rotations k ?r w = Inr (es, r', w')" if "0 < n"
    using rotations_total [OF ok, of k w] c that by simp
  moreover have "length es = k \<and> length (keys r') \<le> nat n \<and> cap_keys r' = nat n"
    if "rotations k ?r w = Inr (es, r', w')" for es r' w'
  proof -
    from rotations_keep_invariant [OF ok that] c
    have "slice_ok r'" "cap_keys r' = nat n" by simp_all
    moreover from this have "length (keys r') \<le> nat n"
      by (simp add: keys_def slice_ok_def)
    moreover have "length es = k"
      using that by (rule rotations_length)
    ultimately show ?thesis by simp
  qed
  ultimately show ?thesis by blast
qed

theorem ring_length_bounded_witness:
  "make_keys 2 = Inr [zero_key, zero_key]
   \<and> (0::int) < 2
   \<and> (\<exists>es r' w'. rotations 4 \<lparr>duration = 60, keys_array = [zero_key, zero_key], keys_len = 0\<rparr>
                     (demo_world [(demo_key 1, EOF), ([], EOF), (demo_key 3, EOF)])
                     = Inr (es, r', w')
                 \<and> length es = 4 \<and> length (keys r') \<le> 2 \<and> cap_keys r' = 2)"
proof -
  have m: "make_keys 2 = Inr [zero_key, zero_key]"
    by (simp add: make_keys_def numeral_2_eq_2)
  have n: "nat 2 = 2" by simp
  from ring_length_bounded [OF m, of 4 60
      "demo_world [(demo_key 1, EOF), ([], EOF), (demo_key 3, EOF)]"]
  have "\<exists>es r' w'. rotations 4 \<lparr>duration = 60, keys_array = [zero_key, zero_key], keys_len = 0\<rparr>
                     (demo_world [(demo_key 1, EOF), ([], EOF), (demo_key 3, EOF)])
                     = Inr (es, r', w')
                 \<and> length es = 4 \<and> length (keys r') \<le> 2 \<and> cap_keys r' = 2"
    unfolding n by fastforce
  with m show ?thesis by simp
qed

section \<open>The newest key stays in front\<close>

text \<open>
  Claim C4. A successful rotation that generated \<open>k\<close>, followed by any number \<open>m\<close> of failed
  rotations, leaves \<open>k\<close> at index 0 of a non-empty ring: every call returns, the first
  without error, the others with one, and no failed call changes \<^verbatim>\<open>keys[0]\<close>.
\<close>

theorem newest_key_stays_in_front:
  assumes "slice_ok r" and "0 < cap_keys r" and "next_key w = Some k"
    and "starved (tl (source w)) m"
  shows "\<exists>es r' w'. rotations (Suc m) r w = Inr (None # es, r', w')
           \<and> length es = m \<and> None \<notin> set es
           \<and> keys r' \<noteq> [] \<and> keys r' ! 0 = k"
proof -
  from rotate_success [OF assms(1,2,3)] obtain r1
    where 1: "rotate_keys r w = Inr (None, r1, published (keys r1) (consumed w))"
      "keys r1 = k # take (cap_keys r - 1) (keys r)" "slice_ok r1"
    by blast
  have ne: "keys r1 \<noteq> []" and hd1: "hd (keys r1) = k"
    using 1(2) by simp_all
  have "starved (source (published (keys r1) (consumed w))) m"
    using assms(4) by simp
  from rotations_all_failure [OF 1(3) ne this] obtain es r' w'
    where 2: "rotations m r1 (published (keys r1) (consumed w)) = Inr (es, r', w')"
      "length es = m" "None \<notin> set es" "keys r' \<noteq> []" "hd (keys r') = hd (keys r1)"
    by blast
  have "keys r' ! 0 = k"
    using 2(4,5) hd1 by (simp add: hd_conv_nth)
  with 1(1) 2 show ?thesis by simp
qed

theorem newest_key_stays_in_front_witness:
  "slice_ok (demo_rotator [demo_key 1, zero_key, zero_key] 1)
   \<and> 0 < cap_keys (demo_rotator [demo_key 1, zero_key, zero_key] 1)
   \<and> next_key (demo_world [(demo_key 2, EOF), ([], EOF), ([7, 7], ErrSource 5)]) = Some (demo_key 2)
   \<and> starved (tl (source (demo_world [(demo_key 2, EOF), ([], EOF), ([7, 7], ErrSource 5)]))) 3
   \<and> (\<exists>es r' w'. rotations 4 (demo_rotator [demo_key 1, zero_key, zero_key] 1)
                     (demo_world [(demo_key 2, EOF), ([], EOF), ([7, 7], ErrSource 5)])
                   = Inr (None # es, r', w')
                 \<and> length es = 3 \<and> None \<notin> set es \<and> keys r' \<noteq> [] \<and> keys r' ! 0 = demo_key 2)"
proof -
  let ?r = "demo_rotator [demo_key 1, zero_key, zero_key] 1"
  let ?w = "demo_world [(demo_key 2, EOF), ([], EOF), ([7, 7], ErrSource 5)]"
  have h1: "slice_ok ?r" and h2: "0 < cap_keys ?r"
    by (simp_all add: slice_ok_def cap_keys_def demo_rotator_def)
  have h3: "next_key ?w = Some (demo_key 2)"
    by (simp add: next_key_def source_def demo_world_def demo_key_def)
  have h4: "starved (tl (source ?w)) 3"
    by (simp add: source_def demo_world_def numeral_3_eq_3)
  have s: "Suc 3 = 4" by simp
  from newest_key_stays_in_front [OF h1 h2 h3 h4] h1 h2 h3 h4 show ?thesis
    unfolding s by blast
qed

section \<open>Bounded retention\<close>

text \<open>
  Claim C5, as amended. Take a non-empty ring of capacity \<open>N\<close> and \<open>N + 1\<close> successful
  rotations whose generated keys are pairwise distinct and all differ from the key at the
  tail of the ring before the run: afterwards that key is not in the ring, which holds the
  \<open>N\<close> newest generated keys.
\<close>

theorem oldest_key_evicted:
  assumes "slice_ok r" and "keys r \<noteq> []" and "yields (source w) ks"
    and "length ks = cap_keys r + 1" and "distinct (last (keys r) # ks)"
  shows "\<exists>r' w'. rotations (cap_keys r + 1) r w = Inr (replicate (cap_keys r + 1) None, r', w')
           \<and> last (keys r) \<notin> set (keys r')
           \<and> keys r' = take (cap_keys r) (rev ks)"
proof -
  have c: "0 < cap_keys r"
    using assms(1,2) by (auto simp: slice_ok_def keys_def)
  from rotations_all_success [OF assms(1) c assms(3)] assms(4) obtain r' w'
    where 1: "rotations (cap_keys r + 1) r w = Inr (replicate (cap_keys r + 1) None, r', w')"
      "keys r' = take (cap_keys r) (rev ks @ keys r)"
    by auto
  have 2: "keys r' = take (cap_keys r) (rev ks)"
    using 1(2) assms(4) by simp
  have "set (keys r') \<subseteq> set ks"
    unfolding 2 using set_take_subset [of "cap_keys r" "rev ks"] by simp
  moreover have "last (keys r) \<notin> set ks"
    using assms(5) by simp
  ultimately have "last (keys r) \<notin> set (keys r')" by blast
  with 1(1) 2 show ?thesis by blast
qed

theorem oldest_key_evicted_witness:
  "slice_ok (demo_rotator [demo_key 2, demo_key 1] 2)
   \<and> keys (demo_rotator [demo_key 2, demo_key 1] 2) \<noteq> []
   \<and> yields (source (demo_world [(demo_key 3, EOF), (demo_key 4, EOF), (demo_key 5, EOF)]))
        [demo_key 3, demo_key 4, demo_key 5]
   \<and> length [demo_key 3, demo_key 4, demo_key 5] = cap_keys (demo_rotator [demo_key 2, demo_key 1] 2) + 1
   \<and> distinct (last (keys (demo_rotator [demo_key 2, demo_key 1] 2))
               # [demo_key 3, demo_key 4, demo_key 5])
   \<and> last (keys (demo_rotator [demo_key 2, demo_key 1] 2)) = demo_key 1
   \<and> (\<exists>r' w'. rotations 3 (demo_rotator [demo_key 2, demo_key 1] 2)
                  (demo_world [(demo_key 3, EOF), (demo_key 4, EOF), (demo_key 5, EOF)])
                = Inr ([None, None, None], r', w')
              \<and> demo_key 1 \<notin> set (keys r')
              \<and> keys r' = [demo_key 5, demo_key 4])"
proof -
  let ?r = "demo_rotator [demo_key 2, demo_key 1] 2"
  let ?w = "demo_world [(demo_key 3, EOF), (demo_key 4, EOF), (demo_key 5, EOF)]"
  have k: "keys ?r = [demo_key 2, demo_key 1]" and c: "cap_keys ?r = 2"
    by (simp_all add: keys_def cap_keys_def demo_rotator_def)
  have h1: "slice_ok ?r" and h2: "keys ?r \<noteq> []"
    by (simp_all add: slice_ok_def cap_keys_def keys_def demo_rotator_def)
  have h3: "yields (source ?w) [demo_key 3, demo_key 4, demo_key 5]"
    by (simp add: source_def demo_world_def demo_key_def)
  have h4: "length [demo_key 3, demo_key 4, demo_key 5] = cap_keys ?r + 1"
    unfolding c by simp
  have h5: "distinct (last (keys ?r) # [demo_key 3, demo_key 4, demo_key 5])"
    unfolding k by (simp add: demo_key_def)
  have l: "last (keys ?r) = demo_key 1"
    unfolding k by simp
  have e: "(2::nat) + 1 = 3" "replicate 3 (None :: error option) = [None, None, None]"
    "take 2 (rev [demo_key 3, demo_key 4, demo_key 5]) = [demo_key 5, demo_key 4]"
    by (simp_all add: numeral_3_eq_3 numeral_2_eq_2)
  from oldest_key_evicted [OF h1 h2 h3 h4 h5]
  have "\<exists>r' w'. rotations 3 ?r ?w = Inr ([None, None, None], r', w')
              \<and> demo_key 1 \<notin> set (keys r')
              \<and> keys r' = [demo_key 5, demo_key 4]"
    unfolding c l e by blast
  with h1 h2 h3 h4 h5 l show ?thesis by blast
qed

text \<open>
  As stated, C5 asks only that the generated keys differ from each other. With capacity 1
  and ring \<open>[k1]\<close>, the two rotations that generate \<open>k2\<close> and then \<open>k1\<close> again use distinct
  generated keys, and the key that was at the tail is in the ring afterwards.
\<close>

theorem oldest_key_evicted_counterexample:
  "distinct [demo_key 2, demo_key 1]
   \<and> length [demo_key 2, demo_key 1] = cap_keys (demo_rotator [demo_key 1] 1) + 1
   \<and> yields (source (demo_world [(demo_key 2, EOF), (demo_key 1, EOF)])) [demo_key 2, demo_key 1]
   \<and> last (keys (demo_rotator [demo_key 1] 1)) = demo_key 1
   \<and> rotations 2 (demo_rotator [demo_key 1] 1)
        (demo_world [(demo_key 2, EOF), (demo_key 1, EOF)])
      = Inr ([None, None], demo_rotator [demo_key 1] 1,
             published [demo_key 1] (published [demo_key 2]
               (demo_world [])))
   \<and> demo_key 1 \<in> set (keys (demo_rotator [demo_key 1] 1))"
  by (simp add: demo_key_def demo_rotator_def demo_world_def keys_def cap_keys_def source_def
      rotate_keys_def read_def ReadFull_def copy_within_def SetSessionTicketKeys_def
      published_def numeral_2_eq_2 Let_def)

section \<open>A failed read\<close>

text \<open>
  Claim C1 says that a rotation whose read fails leaves the ring as it was. The code grows
  and shifts the slice before it reads, so the failed call has already duplicated
  \<^verbatim>\<open>keys[0]\<close>: with capacity 3 and ring \<open>[k1]\<close>, a rotation whose source is at its end
  returns \<^verbatim>\<open>io.EOF\<close> and leaves the ring \<open>[k1, k1]\<close>, which is what the configuration
  receives; so does the run of two rotations from the empty ring, the first generating
  \<open>k1\<close>.
\<close>

theorem failed_rotation_duplicates_front:
  "keys (demo_rotator [demo_key 1, zero_key, zero_key] 1) = [demo_key 1]
   \<and> next_key (published [demo_key 1] (demo_world [])) = None
   \<and> rotate_keys (demo_rotator [demo_key 1, zero_key, zero_key] 1)
         (published [demo_key 1] (demo_world []))
       = Inr (Some EOF,
              demo_rotator [demo_key 1, demo_key 1, zero_key] 2,
              published [demo_key 1, demo_key 1] (published [demo_key 1] (demo_world [])))
   \<and> keys (demo_rotator [demo_key 1, demo_key 1, zero_key] 2) = [demo_key 1, demo_key 1]
   \<and> sessionTicketKeys (cfg (published [demo_key 1, demo_key 1]
                                (published [demo_key 1] (demo_world []))))
       = [demo_key 1, demo_key 1]
   \<and> rotations 2 (demo_rotator [zero_key, zero_key, zero_key] 0) (demo_world [(demo_key 1, EOF)])
       = Inr ([None, Some EOF],
              demo_rotator [demo_key 1, demo_key 1, zero_key] 2,
              published [demo_key 1, demo_key 1] (published [demo_key 1] (demo_world [])))"
  by (simp add: demo_key_def demo_rotator_def demo_world_def keys_def cap_keys_def
      rotate_keys_def read_def ReadFull_def copy_within_def SetSessionTicketKeys_def
      published_def next_key_def source_def numeral_2_eq_2 Let_def zero_key_def)

text \<open>
  What a failed rotation does to a non-empty ring of capacity \<open>N\<close>: it returns the read's
  error, and the ring becomes the old ring with its first key put in front once more, cut
  at \<open>N\<close>; this ring is installed as the ticket keys.
\<close>

theorem failed_rotation_shifts_ring:
  assumes "slice_ok r" and "keys r \<noteq> []" and "next_key w = None"
  shows "\<exists>e r' w'. rotate_keys r w = Inr (Some e, r', w')
           \<and> keys r' = take (cap_keys r) (hd (keys r) # keys r)
           \<and> sessionTicketKeys (cfg w') = keys r'"
proof -
  have c: "0 < cap_keys r" and h: "take 1 (keys_array r) = [hd (keys r)]"
    using assms(1,2) by (cases "keys_array r"; auto simp: slice_ok_def keys_def cap_keys_def)+
  from rotate_failure [OF assms(1) c assms(3)] obtain e r'
    where 1: "rotate_keys r w = Inr (Some e, r', published (keys r') (consumed w))"
      "keys r' = take (cap_keys r) (take 1 (keys_array r) @ keys r)"
    by blast
  have "keys r' = take (cap_keys r) (hd (keys r) # keys r)"
    using 1(2) unfolding h by simp
  with 1(1) show ?thesis by simp
qed

theorem failed_rotation_shifts_ring_witness:
  "slice_ok (demo_rotator [demo_key 3, demo_key 2, demo_key 1] 3)
   \<and> keys (demo_rotator [demo_key 3, demo_key 2, demo_key 1] 3) \<noteq> []
   \<and> next_key (demo_world []) = None
   \<and> (\<exists>e r' w'. rotate_keys (demo_rotator [demo_key 3, demo_key 2, demo_key 1] 3) (demo_world [])
                   = Inr (Some e, r', w')
                \<and> keys r' = [demo_key 3, demo_key 3, demo_key 2]
                \<and> sessionTicketKeys (cfg w') = keys r')"
proof -
  let ?r = "demo_rotator [demo_key 3, demo_key 2, demo_key 1] 3"
  have k: "keys ?r = [demo_key 3, demo_key 2, demo_key 1]" and c: "cap_keys ?r = 3"
    by (simp_all add: keys_def cap_keys_def demo_rotator_def)
  have h1: "slice_ok ?r" and h2: "keys ?r \<noteq> []"
    by (simp_all add: slice_ok_def cap_keys_def keys_def demo_rotator_def)
  have h3: "next_key (demo_world []) = None"
    by (simp add: next_key_def source_def demo_world_def)
  have t: "take 3 (hd [demo_key 3, demo_key 2, demo_key 1] # [demo_key 3, demo_key 2, demo_key 1])
           = [demo_key 3, demo_key 3, demo_key 2]"
    by (simp add: numeral_3_eq_3)
  from failed_rotation_shifts_ring [OF h1 h2 h3]
  have "\<exists>e r' w'. rotate_keys ?r (demo_world []) = Inr (Some e, r', w')
                \<and> keys r' = [demo_key 3, demo_key 3, demo_key 2]
                \<and> sessionTicketKeys (cfg w') = keys r'"
    unfolding k c t .
  with h1 h2 h3 show ?thesis by blast
qed

section \<open>The seeding rotation of the wrapper\<close>

lemma make_keys_positive:
  assumes "0 < n"
  shows "make_keys n = Inr (replicate (nat n) zero_key)"
    and "slice_ok \<lparr>duration = d, keys_array = replicate (nat n) zero_key, keys_len = 0\<rparr>"
    and "0 < cap_keys \<lparr>duration = d, keys_array = replicate (nat n) zero_key, keys_len = 0\<rparr>"
    and "keys \<lparr>duration = d, keys_array = replicate (nat n) zero_key, keys_len = 0\<rparr> = []"
    and "take 1 (replicate (nat n) zero_key) = [zero_key]"
  using assms by (simp_all add: make_keys_def slice_ok_def cap_keys_def keys_def take_Cons')

text \<open>
  A capacity that is not positive: \<^verbatim>\<open>make\<close> panics for a negative one, and for capacity 0
  the seeding rotation panics at \<^verbatim>\<open>r.keys[1:]\<close>; the option does not return.
\<close>

theorem capacity_must_be_positive:
  assumes "n \<le> 0"
  shows "WithSessionTicketKeyRotation g n d w
         = Inl (if n < 0 then MakeCapOutOfRange else SliceBoundsOutOfRange)"
  using assms
  by (simp add: WithSessionTicketKeyRotation_def make_keys_def rotate_keys_def cap_keys_def)

theorem capacity_must_be_positive_witness:
  "(0::int) \<le> 0 \<and> WithSessionTicketKeyRotation [] 0 60 (demo_world []) = Inl SliceBoundsOutOfRange
   \<and> (-1::int) \<le> 0 \<and> WithSessionTicketKeyRotation [] (-1) 60 (demo_world []) = Inl MakeCapOutOfRange"
  using capacity_must_be_positive [of 0 "[]" 60 "demo_world []"]
    capacity_must_be_positive [of "-1" "[]" 60 "demo_world []"]
  by simp

text \<open>
  Claim C6. For a positive capacity the option returns \<^verbatim>\<open>nil\<close> whatever the seeding
  rotation does. If its read fails, \<^verbatim>\<open>SessionTicketsDisabled\<close> is set and the supervisor's
  list of runnables is unchanged; if it succeeds with key \<open>k\<close>, a rotator whose ring is
  \<open>[k]\<close>, with capacity \<open>n\<close> and interval \<open>d\<close>, is added to the supervisor and the flag keeps
  the value it had.
\<close>

theorem seeding_decides_registration:
  assumes "0 < n"
  shows "\<exists>g' w'. WithSessionTicketKeyRotation g n d w = Inr (None, g', w')
           \<and> (case next_key w of
                 None \<Rightarrow> SessionTicketsDisabled (cfg w') \<and> g' = g
               | Some k \<Rightarrow>
                   (\<exists>r. g' = Add g r \<and> keys r = [k] \<and> sessionTicketKeys (cfg w') = [k]
                        \<and> slice_ok r \<and> cap_keys r = nat n \<and> duration r = d)
                   \<and> SessionTicketsDisabled (cfg w') = SessionTicketsDisabled (cfg w))"
proof (cases "next_key w")
  case None
  let ?r = "\<lparr>duration = d, keys_array = replicate (nat n) zero_key, keys_len = 0\<rparr>"
  note m = make_keys_positive [OF assms]
  from rotate_failure [OF m(2,3) None] obtain e r'
    where "rotate_keys ?r w = Inr (Some e, r', published (keys r') (consumed w))"
    by blast
  then show ?thesis
    using None by (simp add: WithSessionTicketKeyRotation_def m(1))
next
  case (Some k)
  let ?r = "\<lparr>duration = d, keys_array = replicate (nat n) zero_key, keys_len = 0\<rparr>"
  note m = make_keys_positive [OF assms]
  from rotate_success [OF m(2,3) Some] obtain r'
    where "rotate_keys ?r w = Inr (None, r', published (keys r') (consumed w))"
      "keys r' = k # take (cap_keys ?r - 1) (keys ?r)"
      "cap_keys r' = cap_keys ?r" "slice_ok r'" "duration r' = duration ?r"
    by blast
  then show ?thesis
    using Some by (auto simp: WithSessionTicketKeyRotation_def m(1,4) cap_keys_def)
qed

theorem seeding_decides_registration_witness:
  "(0::int) < 3
   \<and> next_key (demo_world []) = None
   \<and> (\<exists>w'. WithSessionTicketKeyRotation [] 3 60 (demo_world []) = Inr (None, [], w')
           \<and> SessionTicketsDisabled (cfg w'))
   \<and> next_key (demo_world [(demo_key 1, EOF)]) = Some (demo_key 1)
   \<and> (\<exists>r w'. WithSessionTicketKeyRotation [] 3 60 (demo_world [(demo_key 1, EOF)])
                = Inr (None, [r], w')
             \<and> keys r = [demo_key 1] \<and> \<not> SessionTicketsDisabled (cfg w'))"
proof -
  have n1: "next_key (demo_world []) = None"
    and n2: "next_key (demo_world [(demo_key 1, EOF)]) = Some (demo_key 1)"
    and f: "\<not> SessionTicketsDisabled (cfg (demo_world [(demo_key 1, EOF)]))"
    by (simp_all add: next_key_def source_def demo_world_def demo_key_def)
  from seeding_decides_registration [of 3 "[]" 60 "demo_world []"]
  have 1: "\<exists>w'. WithSessionTicketKeyRotation [] 3 60 (demo_world []) = Inr (None, [], w')
           \<and> SessionTicketsDisabled (cfg w')"
    unfolding n1 by auto
  from seeding_decides_registration [of 3 "[]" 60 "demo_world [(demo_key 1, EOF)]"]
  have 2: "\<exists>r w'. WithSessionTicketKeyRotation [] 3 60 (demo_world [(demo_key 1, EOF)])
                = Inr (None, [r], w')
             \<and> keys r = [demo_key 1] \<and> \<not> SessionTicketsDisabled (cfg w')"
    unfolding n2 using f by (auto simp: Add_def)
  from 1 2 n1 n2 show ?thesis by simp
qed

text \<open>
  Claim C9. When the read of the seeding rotation fails, that \<^verbatim>\<open>rotate()\<close> call returns its
  error after it has installed the one-element key list holding the all-zero 32-byte key,
  with \<^verbatim>\<open>SessionTicketsDisabled\<close> still as it was; the wrapper sets the flag afterwards, so
  the history of the configuration ends with the installation followed by the flag.
\<close>

theorem failed_seeding_publishes_zero_key:
  assumes "0 < n" and "next_key w = None"
  shows "\<exists>e r1 w1 w'.
           rotate_keys \<lparr>duration = d, keys_array = replicate (nat n) zero_key, keys_len = 0\<rparr> w
             = Inr (Some e, r1, w1)
         \<and> sessionTicketKeys (cfg w1) = [replicate 32 0]
         \<and> effects (cfg w1) = effects (cfg w) @ [SetKeys [replicate 32 0]]
         \<and> SessionTicketsDisabled (cfg w1) = SessionTicketsDisabled (cfg w)
         \<and> WithSessionTicketKeyRotation g n d w = Inr (None, g, w')
         \<and> sessionTicketKeys (cfg w') = [replicate 32 0]
         \<and> effects (cfg w') = effects (cfg w) @ [SetKeys [replicate 32 0], DisabledTickets]
         \<and> SessionTicketsDisabled (cfg w')"
proof -
  let ?r = "\<lparr>duration = d, keys_array = replicate (nat n) zero_key, keys_len = 0\<rparr>"
  note m = make_keys_positive [OF assms(1)]
  from rotate_failure [OF m(2,3) assms(2)] obtain e r'
    where 1: "rotate_keys ?r w = Inr (Some e, r', published (keys r') (consumed w))"
      "keys r' = take (cap_keys ?r) (take 1 (keys_array ?r) @ keys ?r)"
    by blast
  have "keys r' = take (nat n) ([zero_key] @ [])"
    using 1(2) unfolding m(4) by (simp only: KeyRotator.simps m(5) cap_keys_def length_replicate)
  also have "\<dots> = [replicate 32 0]"
    using assms(1) by (simp add: zero_key_def take_Cons')
  finally have "keys r' = [replicate 32 0]" .
  with 1(1) show ?thesis
    by (simp add: WithSessionTicketKeyRotation_def m(1))
qed

theorem failed_seeding_publishes_zero_key_witness:
  "(0::int) < 2 \<and> next_key (demo_world [([1, 2, 3], ErrSource 9)]) = None
   \<and> (\<exists>w'. WithSessionTicketKeyRotation [] 2 60 (demo_world [([1, 2, 3], ErrSource 9)])
             = Inr (None, [], w')
          \<and> sessionTicketKeys (cfg w') = [replicate 32 0]
          \<and> effects (cfg w') = [SetKeys [replicate 32 0], DisabledTickets]
          \<and> SessionTicketsDisabled (cfg w'))"
proof -
  have h1: "(0::int) < 2" by simp
  have h2: "next_key (demo_world [([1, 2, 3], ErrSource 9)]) = None"
    by (simp add: next_key_def source_def demo_world_def)
  have e: "effects (cfg (demo_world [([1, 2, 3], ErrSource 9)])) = []"
    by (simp add: demo_world_def)
  from failed_seeding_publishes_zero_key [OF h1 h2, of 60 "[]"] h1 h2 show ?thesis
    unfolding e by auto
qed

section \<open>Invariants of the run loop and the handshake\<close>

lemma step_simps [simp]:
  "step CallStart s =
     (if loop s = NotStarted
      then Some (if duration (rotator s) \<le> 0 then s\<lparr>loop := Crashed NonPositiveInterval\<rparr>
                 else s\<lparr>loop := Selecting, ticker_on := True\<rparr>)
      else None)"
  "step Tick s =
     (if loop s = Selecting
      then Some (case rotate_keys (rotator s) (env s) of
                   Inl p \<Rightarrow> s\<lparr>loop := Crashed p, ticker_on := False\<rparr>
                 | Inr (err, r', w') \<Rightarrow> s\<lparr>rotator := r', env := w'\<rparr>)
      else None)"
  "step (CallStop e) s =
     (if stopper s = NotCalled then Some (s\<lparr>stopper := Sending e\<rparr>) else None)"
  "step Handover s =
     (case stopper s of
        Sending e \<Rightarrow> if loop s = Selecting
                     then Some (s\<lparr>loop := Acknowledging, stopper := AwaitingAck e\<rparr>)
                     else None
      | _ \<Rightarrow> None)"
  "step CloseAck s =
     (if loop s = Acknowledging then Some (s\<lparr>ack_closed := True, loop := Returning\<rparr>) else None)"
  "step ReturnNil s =
     (if loop s = Returning then Some (s\<lparr>loop := Exited, ticker_on := False\<rparr>) else None)"
  "step SeeAck s =
     (case stopper s of
        AwaitingAck e \<Rightarrow> if ack_closed s then Some (s\<lparr>stopper := StopReturned\<rparr>) else None
      | _ \<Rightarrow> None)"
  by (simp_all add: step_def split: stop_pc.splits)

lemma registered_coherent: "coherent (registered r w)"
  by (simp add: coherent_def registered_def)

lemma step_coherent:
  assumes "coherent s" "step a s = Some s'"
  shows "coherent s'"
  using assms
  by (cases a; cases "stopper s")
     (auto simp: coherent_def split: if_splits sum.splits)

lemma run_coherent:
  assumes "coherent s" "run as s = Some s'"
  shows "coherent s'"
  using assms
  by (induction as arbitrary: s) (auto split: option.splits dest: step_coherent)

lemma ack_needs_request:
  assumes "coherent s" "ack_closed s"
  shows "requested (stopper s)"
  using assms by (auto simp: coherent_def split: if_splits)

lemma step_after_request:
  assumes "coherent s" "requested (stopper s)" "step a s = Some s'"
  shows "rotator s' = rotator s \<and> env s' = env s \<and> requested (stopper s')"
  using assms
  by (cases a; cases "stopper s")
     (auto simp: coherent_def split: if_splits sum.splits)

lemma run_after_request:
  assumes "coherent s" "requested (stopper s)" "run as s = Some s'"
  shows "rotator s' = rotator s \<and> env s' = env s"
  using assms
proof (induction as arbitrary: s)
  case Nil
  then show ?case by simp
next
  case (Cons a as)
  from Cons.prems(3) obtain s1 where 1: "step a s = Some s1" "run as s1 = Some s'"
    by (auto split: option.splits)
  from step_after_request [OF Cons.prems(1,2) 1(1)] step_coherent [OF Cons.prems(1) 1(1)]
    Cons.IH [OF _ _ 1(2)]
  show ?case by simp
qed

lemma step_ring_ok:
  assumes "ring_ok s" "crash_free d s" "step a s = Some s'"
  shows "ring_ok s' \<and> crash_free d s'"
proof (cases a)
  case Tick
  from assms(1) rotate_total [of "rotator s" "env s"] obtain e r' w'
    where "rotate_keys (rotator s) (env s) = Inr (e, r', w')" "slice_ok r'"
      "cap_keys r' = cap_keys (rotator s)" "duration r' = duration (rotator s)"
    by (auto simp: ring_ok_def)
  with assms Tick show ?thesis
    by (auto simp: ring_ok_def crash_free_def split: if_splits)
next
  case Handover
  with assms show ?thesis
    by (cases "stopper s") (auto simp: ring_ok_def crash_free_def split: if_splits)
next
  case SeeAck
  with assms show ?thesis
    by (cases "stopper s") (auto simp: ring_ok_def crash_free_def split: if_splits)
qed (use assms in \<open>auto simp: ring_ok_def crash_free_def split: if_splits\<close>)

lemma run_ring_ok:
  assumes "ring_ok s" "crash_free d s" "run as s = Some s'"
  shows "ring_ok s' \<and> crash_free d s'"
  using assms
proof (induction as arbitrary: s)
  case Nil
  then show ?case by simp
next
  case (Cons a as)
  from Cons.prems(3) obtain s1 where 1: "step a s = Some s1" "run as s1 = Some s'"
    by (auto split: option.splits)
  from step_ring_ok [OF Cons.prems(1,2) 1(1)] Cons.IH [OF _ _ 1(2)]
  show ?case by simp
qed

lemma step_forget:
  assumes "forget s1 = forget s2"
  shows "map_option forget (step (with_arg e1 a) s1) = map_option forget (step (with_arg e2 a) s2)"
proof -
  from assms have eq: "rotator s1 = rotator s2" "env s1 = env s2" "loop s1 = loop s2"
    "erase (stopper s1) = erase (stopper s2)" "ack_closed s1 = ack_closed s2"
    "ticker_on s1 = ticker_on s2"
    by (simp_all add: forget_def)
  show ?thesis
    using eq
    by (cases a; cases "stopper s1"; cases "stopper s2")
       (auto simp: forget_def split: sum.splits)
qed

section \<open>The run loop outlives rotation errors\<close>

text \<open>
  Claim C7. Take a rotator with a positive capacity, as the wrapper registers it, and any
  schedule of the system, under any randomness source. Whenever the loop waits in its
  \<^verbatim>\<open>select\<close>, a tick is enabled: \<^verbatim>\<open>rotate()\<close> returns (with or without an error), the
  result is dropped, and the loop waits in its \<^verbatim>\<open>select\<close> again. The loop is past its
  \<^verbatim>\<open>select\<close> only when a call of \<^verbatim>\<open>Stop\<close> has handed over its request. The only panic
  is the one of \<^verbatim>\<open>time.NewTicker\<close> for a non-positive interval, before the loop starts.
\<close>

theorem run_loop_survives_rotation_errors:
  assumes "slice_ok r" and "0 < cap_keys r" and "run as (registered r w) = Some s"
  shows "(loop s = Selecting \<longrightarrow>
            (\<exists>e r' w'. rotate_keys (rotator s) (env s) = Inr (e, r', w')
                      \<and> step Tick s = Some (s\<lparr>rotator := r', env := w'\<rparr>)
                      \<and> loop (s\<lparr>rotator := r', env := w'\<rparr>) = Selecting))
       \<and> (loop s = Acknowledging \<or> loop s = Returning \<or> loop s = Exited
            \<longrightarrow> requested (stopper s))
       \<and> (\<forall>p. loop s = Crashed p \<longrightarrow> p = NonPositiveInterval \<and> duration r \<le> 0)"
proof -
  have 0: "ring_ok (registered r w)" "crash_free (duration r) (registered r w)"
    using assms(1,2) by (simp_all add: ring_ok_def crash_free_def registered_def)
  from run_ring_ok [OF 0 assms(3)]
  have 1: "ring_ok s" "crash_free (duration r) s" by simp_all
  from run_coherent [OF registered_coherent assms(3)]
  have 2: "coherent s" .
  have "\<exists>e r' w'. rotate_keys (rotator s) (env s) = Inr (e, r', w')
                      \<and> step Tick s = Some (s\<lparr>rotator := r', env := w'\<rparr>)
                      \<and> loop (s\<lparr>rotator := r', env := w'\<rparr>) = Selecting"
    if "loop s = Selecting"
  proof -
    from 1(1) rotate_total [of "rotator s" "env s"] obtain e r' w'
      where "rotate_keys (rotator s) (env s) = Inr (e, r', w')"
      by (auto simp: ring_ok_def)
    with that show ?thesis by simp
  qed
  moreover have "requested (stopper s)"
    if "loop s = Acknowledging \<or> loop s = Returning \<or> loop s = Exited"
    using 2 that by (cases "stopper s") (auto simp: coherent_def split: if_splits)
  moreover have "p = NonPositiveInterval \<and> duration r \<le> 0" if "loop s = Crashed p" for p
    using 1(2) that by (simp add: crash_free_def)
  ultimately show ?thesis by blast
qed

theorem run_loop_survives_rotation_errors_witness:
  "slice_ok (demo_rotator [demo_key 1, zero_key] 1)
   \<and> 0 < cap_keys (demo_rotator [demo_key 1, zero_key] 1)
   \<and> next_key (demo_world []) = None
   \<and> run [CallStart, Tick, Tick] (registered (demo_rotator [demo_key 1, zero_key] 1) (demo_world []))
       = Some ((registered (demo_rotator [demo_key 1, demo_key 1] 2)
                  (published [demo_key 1, demo_key 1]
                     (published [demo_key 1, demo_key 1] (demo_world []))))
               \<lparr>loop := Selecting, ticker_on := True\<rparr>)
   \<and> (\<exists>r' w'.
         step Tick ((registered (demo_rotator [demo_key 1, demo_key 1] 2)
                      (published [demo_key 1, demo_key 1]
                         (published [demo_key 1, demo_key 1] (demo_world []))))
                    \<lparr>loop := Selecting, ticker_on := True\<rparr>)
           = Some ((registered r' w')\<lparr>loop := Selecting, ticker_on := True\<rparr>))"
proof -
  let ?r = "demo_rotator [demo_key 1, zero_key] 1"
  let ?s = "(registered (demo_rotator [demo_key 1, demo_key 1] 2)
              (published [demo_key 1, demo_key 1]
                 (published [demo_key 1, demo_key 1] (demo_world []))))
            \<lparr>loop := Selecting, ticker_on := True\<rparr>"
  have h1: "slice_ok ?r" and h2: "0 < cap_keys ?r"
    by (simp_all add: slice_ok_def cap_keys_def demo_rotator_def)
  have h3: "run [CallStart, Tick, Tick] (registered ?r (demo_world [])) = Some ?s"
    by (simp add: demo_key_def demo_rotator_def demo_world_def keys_def cap_keys_def
        rotate_keys_def read_def ReadFull_def copy_within_def SetSessionTicketKeys_def
        published_def registered_def Let_def zero_key_def)
  have n: "next_key (demo_world []) = None"
    by (simp add: next_key_def source_def demo_world_def)
  have l: "loop ?s = Selecting"
    by simp
  from run_loop_survives_rotation_errors [OF h1 h2 h3] l
  obtain e r' w' where "rotate_keys (rotator ?s) (env ?s) = Inr (e, r', w')"
    and "step Tick ?s = Some (?s\<lparr>rotator := r', env := w'\<rparr>)"
    by blast
  then have "step Tick ?s = Some ((registered r' w')\<lparr>loop := Selecting, ticker_on := True\<rparr>)"
    by (simp add: registered_def)
  with h1 h2 h3 n show ?thesis by blast
qed

section \<open>Stop and the acknowledgment\<close>

text \<open>
  Claim C8, as amended. In every reachable state: if \<^verbatim>\<open>Stop\<close> has returned, the loop has
  received the request and closed the acknowledgment channel, so it is at its
  \<^verbatim>\<open>return nil\<close> or has returned; once the request is handed over, and so once the
  channel is closed, no schedule changes the rotator, the configuration or the randomness
  sources; an iteration of the loop that takes a tick leaves the handshake alone and never
  leads to the acknowledgment, and one that takes a stop request leaves the rotator and
  the world alone.
\<close>

theorem stop_returns_after_acknowledgment:
  assumes "run as (registered r w) = Some s"
  shows "(stopper s = StopReturned \<longrightarrow> ack_closed s \<and> (loop s = Returning \<or> loop s = Exited))
       \<and> (ack_closed s \<or> requested (stopper s) \<longrightarrow>
            (\<forall>bs s'. run bs s = Some s' \<longrightarrow> rotator s' = rotator s \<and> env s' = env s))
       \<and> (\<forall>s'. step Tick s = Some s' \<longrightarrow>
              stopper s' = stopper s \<and> ack_closed s' = ack_closed s \<and> loop s' \<noteq> Acknowledging)
       \<and> (\<forall>s'. step Handover s = Some s' \<longrightarrow>
              rotator s' = rotator s \<and> env s' = env s \<and> loop s' = Acknowledging)"
proof -
  from run_coherent [OF registered_coherent assms]
  have c: "coherent s" .
  have "ack_closed s \<and> (loop s = Returning \<or> loop s = Exited)" if "stopper s = StopReturned"
    using c that by (auto simp: coherent_def split: if_splits)
  moreover have "rotator s' = rotator s \<and> env s' = env s"
    if "ack_closed s \<or> requested (stopper s)" "run bs s = Some s'" for bs s'
  proof -
    from that(1) ack_needs_request [OF c] have "requested (stopper s)" by blast
    from run_after_request [OF c this that(2)] show ?thesis .
  qed
  moreover have "stopper s' = stopper s \<and> ack_closed s' = ack_closed s \<and> loop s' \<noteq> Acknowledging"
    if "step Tick s = Some s'" for s'
    using that by (auto split: if_splits sum.splits)
  moreover have "rotator s' = rotator s \<and> env s' = env s \<and> loop s' = Acknowledging"
    if "step Handover s = Some s'" for s'
    using that by (cases "stopper s") (auto split: if_splits)
  ultimately show ?thesis by blast
qed

theorem stop_returns_after_acknowledgment_witness:
  "run [CallStart, CallStop (Some EOF), Handover, CloseAck, SeeAck]
       (registered (demo_rotator [demo_key 1, zero_key] 1) (demo_world []))
     = Some ((registered (demo_rotator [demo_key 1, zero_key] 1) (demo_world []))
             \<lparr>loop := Returning, stopper := StopReturned, ack_closed := True, ticker_on := True\<rparr>)
   \<and> run [ReturnNil]
         ((registered (demo_rotator [demo_key 1, zero_key] 1) (demo_world []))
          \<lparr>loop := Returning, stopper := StopReturned, ack_closed := True, ticker_on := True\<rparr>)
     = Some ((registered (demo_rotator [demo_key 1, zero_key] 1) (demo_world []))
             \<lparr>loop := Exited, stopper := StopReturned, ack_closed := True, ticker_on := False\<rparr>)
   \<and> rotator ((registered (demo_rotator [demo_key 1, zero_key] 1) (demo_world []))
             \<lparr>loop := Exited, stopper := StopReturned, ack_closed := True, ticker_on := False\<rparr>)
       = demo_rotator [demo_key 1, zero_key] 1
   \<and> env ((registered (demo_rotator [demo_key 1, zero_key] 1) (demo_world []))
             \<lparr>loop := Exited, stopper := StopReturned, ack_closed := True, ticker_on := False\<rparr>)
       = demo_world []"
proof -
  let ?init = "registered (demo_rotator [demo_key 1, zero_key] 1) (demo_world [])"
  let ?s = "?init\<lparr>loop := Returning, stopper := StopReturned, ack_closed := True, ticker_on := True\<rparr>"
  let ?t = "?init\<lparr>loop := Exited, stopper := StopReturned, ack_closed := True, ticker_on := False\<rparr>"
  have h: "run [CallStart, CallStop (Some EOF), Handover, CloseAck, SeeAck] ?init = Some ?s"
    by (simp add: registered_def demo_rotator_def)
  have r: "run [ReturnNil] ?s = Some ?t"
    by (simp add: registered_def)
  have a: "ack_closed ?s" "rotator ?s = demo_rotator [demo_key 1, zero_key] 1"
    "env ?s = demo_world []"
    by (simp_all add: registered_def)
  from stop_returns_after_acknowledgment [OF h] a(1) r
  have "rotator ?t = rotator ?s \<and> env ?t = env ?s"
    by blast
  with h r a show ?thesis by simp
qed

text \<open>
  As stated, C8 has \<^verbatim>\<open>Stop\<close> return only after the run loop has exited. \<^verbatim>\<open>Stop\<close> waits
  for \<^verbatim>\<open>close(q)\<close> only: in the schedule below it has returned while \<^verbatim>\<open>Start\<close> is still
  before its \<^verbatim>\<open>return nil\<close>, with the ticker not yet stopped.
\<close>

theorem stop_returns_after_acknowledgment_counterexample:
  "run [CallStart, CallStop None, Handover, CloseAck, SeeAck]
       (registered (demo_rotator [demo_key 1, zero_key] 1) (demo_world []))
     = Some ((registered (demo_rotator [demo_key 1, zero_key] 1) (demo_world []))
             \<lparr>loop := Returning, stopper := StopReturned, ack_closed := True, ticker_on := True\<rparr>)
   \<and> stopper ((registered (demo_rotator [demo_key 1, zero_key] 1) (demo_world []))
             \<lparr>loop := Returning, stopper := StopReturned, ack_closed := True, ticker_on := True\<rparr>)
       = StopReturned
   \<and> loop ((registered (demo_rotator [demo_key 1, zero_key] 1) (demo_world []))
             \<lparr>loop := Returning, stopper := StopReturned, ack_closed := True, ticker_on := True\<rparr>)
       \<noteq> Exited"
  by (simp add: registered_def demo_rotator_def)

section \<open>The argument of Stop\<close>

text \<open>
  Claim C10. Take two states that differ at most in the argument held by a running call of
  \<^verbatim>\<open>Stop\<close>, and a schedule. Whatever error values \<open>e1\<close> and \<open>e2\<close> the calls of \<^verbatim>\<open>Stop\<close> in
  the schedule are given, the schedule can run from both states or from neither, and the
  states it reaches again differ at most in that argument: the handshake and its effects
  are the same for any two error values.
\<close>

theorem stop_ignores_its_argument:
  assumes "forget s1 = forget s2"
  shows "map_option forget (run (map (with_arg e1) as) s1)
         = map_option forget (run (map (with_arg e2) as) s2)"
  using assms
proof (induction as arbitrary: s1 s2)
  case Nil
  then show ?case by simp
next
  case (Cons a as)
  note one = step_forget [OF Cons.prems, of e1 a e2]
  show ?case
  proof (cases "step (with_arg e1 a) s1")
    case None
    with one show ?thesis by simp
  next
    case (Some t1)
    with one obtain t2
      where "step (with_arg e2 a) s2 = Some t2" "forget t1 = forget t2"
      by (cases "step (with_arg e2 a) s2") auto
    with Some Cons.IH [of t1 t2] show ?thesis by simp
  qed
qed

theorem stop_ignores_its_argument_witness:
  "forget (registered (demo_rotator [demo_key 1, zero_key] 1) (demo_world []))
     = forget (registered (demo_rotator [demo_key 1, zero_key] 1) (demo_world []))
   \<and> run [CallStart, CallStop (Some (ErrSource 7)), Handover, CloseAck, SeeAck, ReturnNil]
         (registered (demo_rotator [demo_key 1, zero_key] 1) (demo_world []))
     = Some ((registered (demo_rotator [demo_key 1, zero_key] 1) (demo_world []))
             \<lparr>loop := Exited, stopper := StopReturned, ack_closed := True\<rparr>)
   \<and> map_option forget
         (run [CallStart, CallStop None, Handover, CloseAck, SeeAck, ReturnNil]
            (registered (demo_rotator [demo_key 1, zero_key] 1) (demo_world [])))
     = Some (forget ((registered (demo_rotator [demo_key 1, zero_key] 1) (demo_world []))
                     \<lparr>loop := Exited, stopper := StopReturned, ack_closed := True\<rparr>))"
proof -
  let ?init = "registered (demo_rotator [demo_key 1, zero_key] 1) (demo_world [])"
  let ?fin = "?init\<lparr>loop := Exited, stopper := StopReturned, ack_closed := True\<rparr>"
  let ?as = "[CallStart, CallStop None, Handover, CloseAck, SeeAck, ReturnNil]"
  have a1: "map (with_arg (Some (ErrSource 7))) ?as
            = [CallStart, CallStop (Some (ErrSource 7)), Handover, CloseAck, SeeAck, ReturnNil]"
    and a2: "map (with_arg None) ?as = ?as"
    by simp_all
  have r: "run [CallStart, CallStop (Some (ErrSource 7)), Handover, CloseAck, SeeAck, ReturnNil]
             ?init = Some ?fin"
    by (simp add: registered_def demo_rotator_def)
  have "map_option forget (run (map (with_arg (Some (ErrSource 7))) ?as) ?init)
        = map_option forget (run (map (with_arg None) ?as) ?init)"
    by (rule stop_ignores_its_argument) (rule refl)
  then have "map_option forget (run ?as ?init) = Some (forget ?fin)"
    unfolding a1 a2 r by simp
  with r show ?thesis by simp
qed

end
